theory Spec2Isabelle
  imports Complex_Main "HOL-Library.Log_Nat"
begin

section \<open>Low-pass filtering of an NRZ signal: the notebook's numeric pipeline\<close>

text \<open>
  The notebook \<^verbatim>\<open>illustration_low_pass.ipynb\<close> generates random bits, repeats each
  of them \<^verbatim>\<open>samples_per_bit\<close> times (NRZ), computes the sampled impulse response of an
  RC element and convolves the two, dividing the result by its largest magnitude.
  Every step is a call into numpy or scipy. Those routines are embedded by what
  they return for the arguments the notebook passes; an exception they raise is a
  value \<open>Inl e\<close> of the result.
\<close>

datatype error = ValueError | IndexError | ZeroDivisionError

subsection \<open>NRZ modulation\<close>

text \<open>
  \<^verbatim>\<open>np.repeat(a, repeats)\<close> with a scalar count returns the elements of \<^verbatim>\<open>a\<close> in order,
  each \<^verbatim>\<open>repeats\<close> times in a row; a negative count is rejected with
  \<^verbatim>\<open>ValueError\<close>, the count zero gives the empty array.
\<close>

definition np_repeat :: "'a list \<Rightarrow> int \<Rightarrow> error + 'a list" where
  "np_repeat a repeats =
     (if repeats < 0 then Inl ValueError
      else Inr (concat (map (replicate (nat repeats)) a)))"

text \<open>
  \<^verbatim>\<open>
  def nrz( binary_data, samples_per_bit ):
      return np.repeat( binary_data, samples_per_bit )
  \<close>
\<close>

definition nrz :: "'a list \<Rightarrow> int \<Rightarrow> error + 'a list" where
  "nrz binary_data samples_per_bit = np_repeat binary_data samples_per_bit"

subsection \<open>Bit source\<close>

text \<open>
  \<^verbatim>\<open>np.random.randint(low, high=None, size)\<close> draws \<^verbatim>\<open>size\<close> integers from the
  half-open interval from \<^verbatim>\<open>low\<close> to \<^verbatim>\<open>high\<close>; when \<^verbatim>\<open>high\<close> is omitted the interval
  runs from 0 to \<^verbatim>\<open>low\<close>. An empty interval and a negative size are rejected with
  \<^verbatim>\<open>ValueError\<close>; the size zero gives the empty array. The state of the generator
  is the parameter \<open>gen\<close>, the stream of its raw outputs. How numpy maps a raw
  output into the interval is internal to it; reduction modulo the width of the
  interval stands for that step.
\<close>

definition randint :: "int \<Rightarrow> int option \<Rightarrow> int \<Rightarrow> (nat \<Rightarrow> nat) \<Rightarrow> error + int list" where
  "randint low high sz gen =
     (let lo = (case high of None \<Rightarrow> 0 | Some _ \<Rightarrow> low);
          hi = (case high of None \<Rightarrow> low | Some h \<Rightarrow> h)
      in if hi \<le> lo then Inl ValueError
         else if sz < 0 then Inl ValueError
         else Inr (map (\<lambda>i. lo + int (gen i mod nat (hi - lo))) [0..<nat sz]))"

text \<open>
  \<^verbatim>\<open>binary_data = np.random.randint( low=2, size = bit_length )\<close>
\<close>

definition binary_data :: "int \<Rightarrow> (nat \<Rightarrow> nat) \<Rightarrow> error + int list" where
  "binary_data bit_length gen = randint 2 None bit_length gen"

subsection \<open>Double precision\<close>

text \<open>
  The time grid is computed in binary64 arithmetic, and its length depends on how
  two divisions round. A finite double is a rational number; \<open>fl\<close> rounds an exact
  result to the nearest number with a 53-bit significand, ties to the even
  significand. The exponent is unbounded: overflow and subnormal numbers do not
  occur for the magnitudes of the notebook.
\<close>

definition ilog2 :: "rat \<Rightarrow> int" where
  \<comment> \<open>for positive \<open>x\<close>, the exponent \<open>e\<close> with \<open>2^e \<le> x < 2^(e+1)\<close>\<close>
  "ilog2 x =
     (let (p, q) = quotient_of x; d = bitlen p - bitlen q
      in if x < 2 powi d then d - 1 else d)"

definition rne :: "rat \<Rightarrow> int" where
  \<comment> \<open>the nearest integer, a tie going to the even one\<close>
  "rne y =
     (let f = \<lfloor>y\<rfloor>; r = y - of_int f
      in if r < 1 / 2 then f
         else if 1 / 2 < r then f + 1
         else if even f then f else f + 1)"

definition fl :: "rat \<Rightarrow> rat" where
  "fl x =
     (if x = 0 then 0
      else let u = 2 powi (ilog2 \<bar>x\<bar> - 52) in of_int (rne (x / u)) * u)"

subsection \<open>Time grid\<close>

text \<open>
  \<^verbatim>\<open>np.arange(0, stop, step)\<close> with a floating-point step has
  \<open>ceil((stop - 0) / step)\<close> entries (none when that is not positive), the quotient
  taken in double arithmetic; entry \<open>i\<close> is \<open>0 + i * step\<close>, again in double
  arithmetic. A zero step is a \<^verbatim>\<open>ZeroDivisionError\<close>.
\<close>

definition np_arange :: "rat \<Rightarrow> rat \<Rightarrow> error + rat list" where
  "np_arange stop step =
     (if step = 0 then Inl ZeroDivisionError
      else Inr (map (\<lambda>i. fl (of_nat i * step)) [0..<nat \<lceil>fl (stop / step)\<rceil>]))"

text \<open>
  \<^verbatim>\<open>time = np.arange( 0, bit_length, step = 1/samples_per_bit )\<close>

  \<^verbatim>\<open>1/samples_per_bit\<close> is Python's true division of two integers: the quotient
  rounded to a double, \<^verbatim>\<open>ZeroDivisionError\<close> for the divisor zero.
\<close>

definition time :: "int \<Rightarrow> int \<Rightarrow> error + rat list" where
  "time bit_length samples_per_bit =
     (if samples_per_bit = 0 then Inl ZeroDivisionError
      else np_arange (fl (of_int bit_length)) (fl (1 / of_int samples_per_bit)))"

subsection \<open>Doubles with their range\<close>

text \<open>
  The impulse response and the convolution are computed in binary64 arithmetic.
  Their samples are modelled as finite reals or one of the IEEE special values.
  An operation on finite values is exact in the model unless its result leaves the
  range of doubles: a magnitude of at least \<open>2^1024 - 2^970\<close> (the largest double plus
  half a unit in its last place) overflows to a signed infinity, a magnitude of at
  most \<open>2^-1075\<close> (half the smallest subnormal) is flushed to zero. The rounding of
  the significand to 53 bits is not modelled in this part, and zero has no sign.
  numpy's array arithmetic does not raise on overflow, on a division by zero or on
  an invalid operation; it returns the special value.
\<close>

datatype npfloat = Fin real | NaN | PInf | NInf

definition overflow_threshold :: real where
  "overflow_threshold = 2 ^ 1024 - 2 ^ 970"

definition underflow_threshold :: real where
  "underflow_threshold = 1 / 2 ^ 1075"

definition flush :: "real \<Rightarrow> real" where
  "flush v = (if \<bar>v\<bar> \<le> underflow_threshold then 0 else v)"

definition to_double :: "real \<Rightarrow> npfloat" where
  "to_double v =
     (if overflow_threshold \<le> v then PInf
      else if v \<le> - overflow_threshold then NInf
      else Fin (flush v))"

fun np_neg :: "npfloat \<Rightarrow> npfloat" where
  "np_neg (Fin a) = Fin (- a)"
| "np_neg NaN = NaN"
| "np_neg PInf = NInf"
| "np_neg NInf = PInf"

fun np_abs :: "npfloat \<Rightarrow> npfloat" where
  "np_abs (Fin a) = Fin \<bar>a\<bar>"
| "np_abs NaN = NaN"
| "np_abs PInf = PInf"
| "np_abs NInf = PInf"

fun np_add :: "npfloat \<Rightarrow> npfloat \<Rightarrow> npfloat" where
  "np_add (Fin a) (Fin b) = to_double (a + b)"
| "np_add NaN _ = NaN"
| "np_add _ NaN = NaN"
| "np_add PInf NInf = NaN"
| "np_add NInf PInf = NaN"
| "np_add PInf _ = PInf"
| "np_add NInf _ = NInf"
| "np_add _ PInf = PInf"
| "np_add _ NInf = NInf"

fun np_mul :: "npfloat \<Rightarrow> npfloat \<Rightarrow> npfloat" where
  "np_mul (Fin a) (Fin b) = to_double (a * b)"
| "np_mul NaN _ = NaN"
| "np_mul _ NaN = NaN"
| "np_mul (Fin a) PInf = (if a = 0 then NaN else if 0 < a then PInf else NInf)"
| "np_mul (Fin a) NInf = (if a = 0 then NaN else if 0 < a then NInf else PInf)"
| "np_mul PInf (Fin b) = (if b = 0 then NaN else if 0 < b then PInf else NInf)"
| "np_mul NInf (Fin b) = (if b = 0 then NaN else if 0 < b then NInf else PInf)"
| "np_mul PInf PInf = PInf"
| "np_mul PInf NInf = NInf"
| "np_mul NInf PInf = NInf"
| "np_mul NInf NInf = PInf"

fun np_divide :: "npfloat \<Rightarrow> npfloat \<Rightarrow> npfloat" where
  "np_divide (Fin a) (Fin b) =
     (if b \<noteq> 0 then to_double (a / b)
      else if a = 0 then NaN
      else if 0 < a then PInf else NInf)"
| "np_divide NaN _ = NaN"
| "np_divide _ NaN = NaN"
| "np_divide (Fin a) _ = Fin 0"
| "np_divide PInf (Fin b) = (if 0 \<le> b then PInf else NInf)"
| "np_divide NInf (Fin b) = (if 0 \<le> b then NInf else PInf)"
| "np_divide _ _ = NaN"

fun np_exp :: "npfloat \<Rightarrow> npfloat" where
  "np_exp (Fin a) = to_double (exp a)"
| "np_exp NaN = NaN"
| "np_exp PInf = PInf"
| "np_exp NInf = Fin 0"

text \<open>
  \<^verbatim>\<open>np.maximum\<close>, of which \<^verbatim>\<open>np.max\<close> is the reduction, returns \<open>NaN\<close> as soon as one
  argument is \<open>NaN\<close>. \<^verbatim>\<open>np.max\<close> of an empty array is a \<^verbatim>\<open>ValueError\<close>.
\<close>

fun np_maximum :: "npfloat \<Rightarrow> npfloat \<Rightarrow> npfloat" where
  "np_maximum (Fin a) (Fin b) = Fin (max a b)"
| "np_maximum NaN _ = NaN"
| "np_maximum _ NaN = NaN"
| "np_maximum PInf _ = PInf"
| "np_maximum _ PInf = PInf"
| "np_maximum NInf y = y"
| "np_maximum x NInf = x"

fun np_max :: "npfloat list \<Rightarrow> error + npfloat" where
  "np_max [] = Inl ValueError"
| "np_max (v # vs) = Inr (fold np_maximum vs v)"

text \<open>
  \<^verbatim>\<open>np.isclose(a, b)\<close> with its default tolerances: two finite values are close when
  \<open>\<bar>a - b\<bar> \<le> 1e-8 + 1e-5 * \<bar>b\<bar>\<close>, an infinity is close to itself only, \<open>NaN\<close> to
  nothing.
\<close>

fun np_isclose :: "npfloat \<Rightarrow> npfloat \<Rightarrow> bool" where
  "np_isclose (Fin a) (Fin b) = (\<bar>a - b\<bar> \<le> 1 / 10 ^ 8 + (1 / 10 ^ 5) * \<bar>b\<bar>)"
| "np_isclose PInf PInf = True"
| "np_isclose NInf NInf = True"
| "np_isclose _ _ = False"

subsection \<open>Impulse response of the RC element\<close>

text \<open>
  \<^verbatim>\<open>signal.TransferFunction([1], [time_constant, 1])\<close> takes the coefficients of
  numerator and denominator in descending powers of \<open>s\<close>: the system is
  \<open>1 / (time_constant * s + 1)\<close>. When the system is built, a leading zero of the
  denominator is dropped and both coefficient lists are divided by the leading
  coefficient that remains. \<^verbatim>\<open>signal.impulse\<close> first brings the system into
  state-space form. With \<open>a = 1 / time_constant\<close>, computed as a double, the
  normalised denominator is \<open>[1, a]\<close>, the numerator, padded to the same length,
  is \<open>[0, a]\<close>, and the single state has \<open>A = - a\<close>, \<open>B = 1\<close> and
  \<open>C = a - 0 * a\<close>. With \<open>time_constant = 0\<close> the denominator is \<open>[1]\<close>; the system
  is a constant gain without a state, for which \<open>A\<close>, \<open>B\<close> and \<open>C\<close> are returned as
  zero.
\<close>

definition rc_element :: "real \<Rightarrow> npfloat \<times> npfloat \<times> npfloat" where
  "rc_element time_constant =
     (if time_constant = 0 then (Fin 0, Fin 0, Fin 0)
      else let a = np_divide (Fin 1) (Fin time_constant)
           in (np_neg a, Fin 1, np_add a (np_neg (np_mul (Fin 0) a))))"

text \<open>
  \<^verbatim>\<open>signal.impulse(system, T=time)\<close> starts the state at \<open>B\<close> and hands the system to
  \<^verbatim>\<open>lsim\<close> with zero input. \<^verbatim>\<open>lsim\<close>
  \<^item> reads the first time point (\<^verbatim>\<open>IndexError\<close> on an empty grid), rejects a
    negative one with \<^verbatim>\<open>ValueError\<close>, and moves the state forward to a positive one
    with the factor \<open>exp (A * T[0])\<close>;
  \<^item> for a grid of one point returns the output at that point;
  \<^item> otherwise takes \<open>dt = T[1] - T[0]\<close> and raises \<^verbatim>\<open>ValueError\<close> unless
    \<^verbatim>\<open>np.allclose(np.diff(T), dt)\<close>;
  \<^item> then multiplies the state by \<open>exp (A * dt)\<close> once per grid point: the state at
    index \<open>i\<close> is that of index \<open>i - 1\<close> times this factor, whatever \<open>T[i]\<close> is;
  \<^item> returns the time points it was given and the outputs \<open>state * C\<close>.
\<close>

definition steps_equal :: "real list \<Rightarrow> bool" where
  "steps_equal T =
     (case T of
        t0 # t1 # _ \<Rightarrow>
          list_all (\<lambda>i. np_isclose (to_double (T ! Suc i - T ! i)) (to_double (t1 - t0)))
            [0..<length T - 1]
      | _ \<Rightarrow> True)"

primrec xout :: "npfloat \<Rightarrow> npfloat \<Rightarrow> nat \<Rightarrow> npfloat" where
  "xout x0 expAT_dt 0 = x0"
| "xout x0 expAT_dt (Suc i) = np_mul (xout x0 expAT_dt i) expAT_dt"

definition impulse ::
  "npfloat \<times> npfloat \<times> npfloat \<Rightarrow> real list \<Rightarrow> error + real list \<times> npfloat list" where
  "impulse sys T =
     (let (A, B, C) = sys
      in case T of
           [] \<Rightarrow> Inl IndexError
         | t0 # ts \<Rightarrow>
             if t0 < 0 then Inl ValueError
             else
               let x0 = (if t0 = 0 then B else np_mul B (np_exp (np_mul A (Fin t0))))
               in case ts of
                    [] \<Rightarrow> Inr (T, [np_mul x0 C])
                  | t1 # _ \<Rightarrow>
                      if \<not> steps_equal T then Inl ValueError
                      else
                        let expAT_dt = np_exp (np_mul A (to_double (t1 - t0)))
                        in Inr (T, map (\<lambda>i. np_mul (xout x0 expAT_dt i) C) [0..<length T]))"

text \<open>
  \<^verbatim>\<open>
  def rc_impulse_response( time_constant, time):
      rc_element = signal.TransferFunction( [1] , [time_constant, 1])
      return signal.impulse( rc_element, T = time )
  \<close>
\<close>

definition rc_impulse_response :: "real \<Rightarrow> real list \<Rightarrow> error + real list \<times> npfloat list" where
  "rc_impulse_response time_constant T = impulse (rc_element time_constant) T"

subsection \<open>Convolution and normalisation\<close>

text \<open>
  \<^verbatim>\<open>signal.convolve(x, h)\<close> in its default mode is the full linear convolution, the
  sum of the notebook's reminder cell taken over the indices that exist in both
  sequences. The direct method hands the arrays to \<^verbatim>\<open>np.convolve\<close>, which raises
  \<^verbatim>\<open>ValueError\<close> for an empty argument, takes the longer array first and
  accumulates each output sample along that array, one product at a time.
\<close>

definition convolve_at :: "real list \<Rightarrow> real list \<Rightarrow> nat \<Rightarrow> npfloat" where
  "convolve_at a v n =
     fold (\<lambda>j acc. np_add acc
             (if j \<le> n \<and> n - j < length v then np_mul (Fin (a ! j)) (Fin (v ! (n - j)))
              else Fin 0))
       [0..<length a] (Fin 0)"

definition np_convolve :: "real list \<Rightarrow> real list \<Rightarrow> error + npfloat list" where
  "np_convolve a v =
     (let (a, v) = (if length a < length v then (v, a) else (a, v))
      in if a = [] then Inl ValueError
         else if v = [] then Inl ValueError
         else Inr (map (convolve_at a v) [0..<length a + length v - 1]))"

definition signal_convolve :: "real list \<Rightarrow> real list \<Rightarrow> error + npfloat list" where
  "signal_convolve x h = np_convolve x h"

text \<open>
  The two lines of \<^verbatim>\<open>plot_convol\<close> that compute the filtered signal (the
  \<^verbatim>\<open>convolve_and_normalize\<close> of the specification):
  \<^verbatim>\<open>
  convolved = signal.convolve( nrz_signal, impulse_response_rc )
  convolved = convolved / np.max( np.abs( convolved ) )
  \<close>
\<close>

definition convolved :: "real list \<Rightarrow> real list \<Rightarrow> error + npfloat list" where
  "convolved nrz_signal impulse_response_rc =
     (case signal_convolve nrz_signal impulse_response_rc of
        Inl e \<Rightarrow> Inl e
      | Inr c \<Rightarrow>
          (case np_max (map np_abs c) of
             Inl e \<Rightarrow> Inl e
           | Inr m \<Rightarrow> Inr (map (\<lambda>v. np_divide v m) c)))"

subsection \<open>Properties of the NRZ modulator\<close>

lemma length_concat_replicate:
  "length (concat (map (replicate n) xs)) = length xs * n"
  by (induction xs) simp_all

lemma nth_concat_replicate:
  "i < length xs * n \<Longrightarrow> concat (map (replicate n) xs) ! i = xs ! (i div n)"
proof (induction xs arbitrary: i)
  case Nil
  then show ?case by simp
next
  case (Cons x xs)
  have npos: "0 < n" using Cons.prems by (cases n) simp_all
  show ?case
  proof (cases "i < n")
    case True
    then show ?thesis by (simp add: nth_append)
  next
    case False
    then have ge: "n \<le> i" by simp
    then have rest: "i - n < length xs * n" using Cons.prems by simp
    have "i div n = Suc ((i - n) div n)"
      by (rule le_div_geq [OF npos ge])
    with False rest Cons.IH [of "i - n"] show ?thesis
      by (simp add: nth_append)
  qed
qed

text \<open>
  C1. For a positive \<open>samples_per_bit\<close> the modulator returns a sequence of length
  \<open>N * samples_per_bit\<close> whose entry \<open>i\<close> is the bit at position
  \<open>i div samples_per_bit\<close>; the bits 1,0,1,1 at two samples per bit give
  1,1,0,0,1,1,1,1.
\<close>

theorem nrz_repeats_each_bit:
  "(0 < S \<longrightarrow>
      (\<exists>out. nrz bits S = Inr out
         \<and> length out = length bits * nat S
         \<and> (\<forall>i < length bits * nat S. out ! i = bits ! (i div nat S))))
   \<and> nrz [1, 0, 1, 1 :: int] 2 = Inr [1, 1, 0, 0, 1, 1, 1, 1]"
  by (simp add: nrz_def np_repeat_def length_concat_replicate nth_concat_replicate
      eval_nat_numeral)

theorem nrz_repeats_each_bit_witness:
  "(0::int) < 3
   \<and> (\<exists>out. nrz [True, False] 3 = Inr out
         \<and> length out = 6
         \<and> out ! 2 = True \<and> out ! 3 = False)"
  using nrz_repeats_each_bit [of 3 "[True, False]"] by auto

text \<open>
  C10. The modulator distributes over concatenation, and the empty bit sequence is
  modulated to the empty signal.
\<close>

theorem nrz_append:
  "(0 < S \<longrightarrow>
      (\<exists>o1 o2. nrz b1 S = Inr o1 \<and> nrz b2 S = Inr o2
         \<and> nrz (b1 @ b2) S = Inr (o1 @ o2)))
   \<and> (0 < S \<longrightarrow> nrz [] S = Inr [])"
  by (simp add: nrz_def np_repeat_def)

theorem nrz_append_witness:
  "(0::int) < 2
   \<and> nrz ([1 :: int] @ [0, 1]) 2 = Inr ([1, 1] @ [0, 0, 1, 1])
   \<and> nrz ([] :: int list) 2 = Inr []"
  using nrz_append [of 2 "[1 :: int]" "[0, 1]"]
  by (simp add: nrz_def np_repeat_def eval_nat_numeral)

subsection \<open>Properties of the bit source\<close>

text \<open>
  C8. For a positive \<open>bit_length\<close> the bit source returns exactly \<open>bit_length\<close>
  elements, each of them 0 or 1, whatever the generator produces.
\<close>

theorem binary_data_bits:
  "0 < bit_length \<longrightarrow>
     (\<exists>bs. binary_data bit_length gen = Inr bs
        \<and> length bs = nat bit_length
        \<and> (\<forall>b \<in> set bs. b = 0 \<or> b = 1))"
proof -
  have "int (k mod 2) = 0 \<or> int (k mod 2) = 1" for k :: nat
    by (cases "k mod 2 = 0") auto
  then show ?thesis
    by (auto simp add: binary_data_def randint_def)
qed

theorem binary_data_bits_witness:
  "(0::int) < 3 \<and> binary_data 3 id = Inr [0, 1, 0]"
  using binary_data_bits [of 3 id]
  by (simp add: binary_data_def randint_def eval_nat_numeral upt_rec)

text \<open>
  C7 claims that every non-positive \<open>bit_length\<close>, zero in particular, is rejected
  with an error and no sequence is produced. The notebook passes \<open>bit_length\<close> to
  \<^verbatim>\<open>randint\<close> unchecked, and \<^verbatim>\<open>randint\<close> accepts the size zero: the result is the
  empty sequence.
\<close>

theorem binary_data_zero_length_counterexample:
  "binary_data 0 id = Inr [] \<and> binary_data 0 id \<noteq> Inl ValueError"
  by (simp add: binary_data_def randint_def)

text \<open>
  C7, as amended. A negative \<open>bit_length\<close> makes the bit source fail with
  \<^verbatim>\<open>ValueError\<close> and no sequence is produced; for \<open>bit_length = 0\<close> it returns the
  empty sequence without an error.
\<close>

theorem binary_data_nonpositive:
  "(bit_length < 0 \<longrightarrow> binary_data bit_length gen = Inl ValueError)
   \<and> binary_data 0 gen = Inr []"
  by (simp add: binary_data_def randint_def)

theorem binary_data_nonpositive_witness:
  "(- 1 :: int) < 0 \<and> binary_data (- 1) id = Inl ValueError"
  using binary_data_nonpositive [of "- 1" id] by simp

subsection \<open>Bounds on the exponential\<close>



subsection \<open>Properties of the range of doubles\<close>

lemma underflow_threshold_pos: "0 < underflow_threshold"
  by (simp add: underflow_threshold_def)

lemma underflow_below_normal: "underflow_threshold < 1 / 2 ^ 1072"
  by (simp add: underflow_threshold_def)

lemma overflow_above_normal: "2 ^ 1022 < overflow_threshold"
  by (simp add: overflow_threshold_def)


lemma flush_zero [simp]: "flush 0 = 0"
  by (simp add: flush_def)

lemma flush_nonneg: "0 \<le> v \<Longrightarrow> 0 \<le> flush v \<and> flush v \<le> v"
  by (simp add: flush_def)

lemma flush_mono: "0 \<le> u \<Longrightarrow> u \<le> v \<Longrightarrow> flush u \<le> flush v"
  using underflow_threshold_pos by (auto simp add: flush_def)

lemma flush_idem: "flush (flush v) = flush v"
  using underflow_threshold_pos by (simp add: flush_def)

lemma to_double_Fin:
  "\<bar>v\<bar> < overflow_threshold \<Longrightarrow> to_double v = Fin (flush v)"
  by (auto simp add: to_double_def)

lemma to_double_normal:
  "underflow_threshold < \<bar>v\<bar> \<Longrightarrow> \<bar>v\<bar> < overflow_threshold \<Longrightarrow> to_double v = Fin v"
  by (simp add: to_double_Fin flush_def)

lemma to_double_zero [simp]: "to_double 0 = Fin 0"
  using overflow_above_normal by (simp add: to_double_Fin)

lemma to_double_one [simp]: "to_double 1 = Fin 1"
  by (simp add: to_double_def flush_def overflow_threshold_def underflow_threshold_def)

lemma to_double_unit:
  assumes "0 \<le> v" "v \<le> 1"
  shows "to_double v = Fin (flush v)"
proof -
  have "(1::real) < 2 ^ 1022" by simp
  then have "\<bar>v\<bar> < overflow_threshold"
    using assms overflow_above_normal by linarith
  then show ?thesis by (rule to_double_Fin)
qed


lemma np_exp_nonpos:
  assumes "v \<le> 0"
  shows "np_exp (to_double v) = Fin (flush (exp (flush v))) \<or> np_exp (to_double v) = Fin 0 \<and> v \<le> - overflow_threshold"
proof (cases "v \<le> - overflow_threshold")
  case True
  have "0 < overflow_threshold" by (simp add: overflow_threshold_def)
  with True assms show ?thesis by (simp add: to_double_def)
next
  case False
  then have "\<bar>v\<bar> < overflow_threshold" using assms by simp
  then have t: "to_double v = Fin (flush v)" by (rule to_double_Fin)
  have "flush v \<le> 0" using assms by (simp add: flush_def)
  then have "exp (flush v) \<le> 1" by simp
  then have "to_double (exp (flush v)) = Fin (flush (exp (flush v)))"
    by (intro to_double_unit) simp_all
  with t show ?thesis by simp
qed

lemma np_exp_unit:
  assumes "v \<le> 0"
  shows "\<exists>u. np_exp (to_double v) = Fin u \<and> 0 \<le> u \<and> u \<le> 1"
proof -
  have "flush v \<le> 0" using assms by (simp add: flush_def)
  then have e: "exp (flush v) \<le> 1" by simp
  have "0 \<le> flush (exp (flush v)) \<and> flush (exp (flush v)) \<le> exp (flush v)"
    by (rule flush_nonneg) simp
  with e have "0 \<le> flush (exp (flush v)) \<and> flush (exp (flush v)) \<le> 1"
    by linarith
  with np_exp_nonpos [OF assms] show ?thesis by auto
qed

lemma reciprocal_normal:
  fixes \<tau> :: real
  assumes "1 / 2 ^ 1022 \<le> \<bar>\<tau>\<bar>" "\<bar>\<tau>\<bar> \<le> 2 ^ 1022"
  shows "to_double (1 / \<tau>) = Fin (1 / \<tau>)"
proof -
  have "(0::real) < 1 / 2 ^ 1022" by simp
  then have pos: "0 < \<bar>\<tau>\<bar>" using assms(1) by linarith
  have "1 / 2 ^ 1022 \<le> 1 / \<bar>\<tau>\<bar>"
    using assms(2) pos by (intro divide_left_mono) simp_all
  moreover have "1 / \<bar>\<tau>\<bar> \<le> 2 ^ 1022"
    using assms(1) pos by (simp add: field_simps)
  moreover have "\<bar>1 / \<tau>\<bar> = 1 / \<bar>\<tau>\<bar>" by simp
  moreover have "underflow_threshold < 1 / 2 ^ 1022"
    by (simp add: underflow_threshold_def)
  ultimately have "underflow_threshold < \<bar>1 / \<tau>\<bar>" "\<bar>1 / \<tau>\<bar> < overflow_threshold"
    using overflow_above_normal by linarith+
  then show ?thesis by (rule to_double_normal)
qed

lemma rc_element_normal:
  fixes \<tau> :: real
  assumes "1 / 2 ^ 1022 \<le> \<bar>\<tau>\<bar>" "\<bar>\<tau>\<bar> \<le> 2 ^ 1022"
  shows "rc_element \<tau> = (Fin (- (1 / \<tau>)), Fin 1, Fin (1 / \<tau>))"
proof -
  have "\<tau> \<noteq> 0" using assms(1) by auto
  moreover have "to_double (1 / \<tau>) = Fin (1 / \<tau>)"
    using assms by (rule reciprocal_normal)
  ultimately show ?thesis by (simp add: rc_element_def)
qed

subsection \<open>Properties of the impulse response\<close>

lemma np_isclose_to_double_refl: "np_isclose (to_double v) (to_double v)"
  by (simp add: to_double_def)

lemma steps_equal_uniform:
  assumes "\<forall>i < length T. T ! i = t0 + of_nat i * dt"
  shows "steps_equal T"
proof (cases T)
  case Nil
  then show ?thesis by (simp add: steps_equal_def)
next
  case (Cons a ts)
  show ?thesis
  proof (cases ts)
    case Nil
    with Cons show ?thesis by (simp add: steps_equal_def)
  next
    case (Cons b us)
    with \<open>T = a # ts\<close> have T: "T = a # b # us" by simp
    have step: "T ! Suc i - T ! i = dt" if "Suc i < length T" for i
    proof -
      have "T ! Suc i = t0 + of_nat (Suc i) * dt" "T ! i = t0 + of_nat i * dt"
        using assms that by simp_all
      then show ?thesis by (simp add: algebra_simps)
    qed
    have "b - a = T ! Suc 0 - T ! 0" by (simp add: T)
    also have "\<dots> = dt" using step [of 0] by (simp add: T)
    finally have first: "b - a = dt" .
    have "list_all (\<lambda>i. np_isclose (to_double (T ! Suc i - T ! i)) (to_double dt))
        [0..<length T - 1]"
      unfolding list_all_iff using step by (auto simp add: np_isclose_to_double_refl)
    then show ?thesis by (simp add: steps_equal_def T first del: nth_Cons_Suc)
  qed
qed

lemma impulse_empty: "impulse sys [] = Inl IndexError"
  by (cases sys) (simp add: impulse_def)

lemma impulse_negative_start:
  "T \<noteq> [] \<Longrightarrow> hd T < 0 \<Longrightarrow> impulse sys T = Inl ValueError"
  by (cases sys; cases T) (simp_all add: impulse_def)

lemma impulse_unequal_steps:
  "T \<noteq> [] \<Longrightarrow> 0 \<le> hd T \<Longrightarrow> \<not> steps_equal T \<Longrightarrow> impulse sys T = Inl ValueError"
proof (cases sys; cases T)
  fix A B C a ts
  assume *: "sys = (A, B, C)" "T = a # ts" "0 \<le> hd T" "\<not> steps_equal T"
  then show "impulse sys T = Inl ValueError"
    by (cases ts) (simp_all add: impulse_def steps_equal_def)
qed simp_all

lemma impulse_value:
  assumes "T \<noteq> []" "0 \<le> hd T" "steps_equal T"
  shows "impulse (A, B, C) T =
    Inr (T, map (\<lambda>i. np_mul
              (xout (if hd T = 0 then B else np_mul B (np_exp (np_mul A (Fin (hd T)))))
                 (np_exp (np_mul A (to_double (T ! 1 - T ! 0)))) i) C)
          [0..<length T])"
proof (cases T)
  case Nil
  with assms show ?thesis by simp
next
  case (Cons a ts)
  show ?thesis
  proof (cases ts)
    case Nil
    with Cons assms show ?thesis by (simp add: impulse_def)
  next
    case (Cons b us)
    with \<open>T = a # ts\<close> have T: "T = a # b # us" by simp
    have "\<not> a < 0" using assms(2) T by simp
    then show ?thesis
      using assms(3) unfolding T impulse_def
      by (simp add: Let_def del: upt_Suc)
  qed
qed

lemma xout_unit:
  assumes "0 \<le> u0" "u0 \<le> 1" "0 \<le> e" "e \<le> 1"
  shows "\<exists>u. xout (Fin u0) (Fin e) i = Fin u \<and> 0 \<le> u \<and> u \<le> 1
           \<and> xout (Fin u0) (Fin e) (Suc i) = Fin (flush (u * e))"
proof (induction i)
  case 0
  have "0 \<le> u0 * e" "u0 * e \<le> 1"
    using assms by (simp_all add: mult_le_one)
  then have "to_double (u0 * e) = Fin (flush (u0 * e))" by (rule to_double_unit)
  with assms show ?case by simp
next
  case (Suc i)
  then obtain u where u: "xout (Fin u0) (Fin e) i = Fin u" "0 \<le> u" "u \<le> 1"
    "xout (Fin u0) (Fin e) (Suc i) = Fin (flush (u * e))" by blast
  define w where "w = flush (u * e)"
  have ue: "0 \<le> u * e" "u * e \<le> 1" using u assms by (simp_all add: mult_le_one)
  then have w: "0 \<le> w" "w \<le> 1" using flush_nonneg [of "u * e"] by (simp_all add: w_def)
  have "0 \<le> w * e" "w * e \<le> 1" using w assms by (simp_all add: mult_le_one)
  then have "to_double (w * e) = Fin (flush (w * e))" by (rule to_double_unit)
  then have "xout (Fin u0) (Fin e) (Suc (Suc i)) = Fin (flush (w * e))"
    using u(4) by (simp add: w_def)
  with u(4) w show ?case unfolding w_def by blast
qed

lemma decay_factor_unit:
  assumes "0 < a" "0 \<le> d"
  shows "\<exists>e. np_exp (np_mul (Fin (- a)) (to_double d)) = Fin e \<and> 0 \<le> e \<and> e \<le> 1"
proof (cases "overflow_threshold \<le> d")
  case True
  then have "to_double d = PInf" by (simp add: to_double_def)
  with assms show ?thesis by simp
next
  case False
  then have "to_double d = Fin (flush d)" using assms by (intro to_double_Fin) simp
  moreover have "- a * flush d \<le> 0"
    using assms flush_nonneg [of d] by (simp add: mult_nonneg_nonneg)
  ultimately show ?thesis using np_exp_unit [of "- a * flush d"] by simp
qed

lemma start_state_unit:
  assumes "0 < a" "0 \<le> t"
  shows "\<exists>u. (if t = 0 then Fin 1 else np_mul (Fin 1) (np_exp (np_mul (Fin (- a)) (Fin t)))) = Fin u
           \<and> 0 \<le> u \<and> u \<le> 1"
proof (cases "t = 0")
  case True
  then show ?thesis by simp
next
  case False
  have "- a * t \<le> 0" using assms by (simp add: mult_nonneg_nonneg)
  then obtain u where u: "np_exp (to_double (- a * t)) = Fin u" "0 \<le> u" "u \<le> 1"
    using np_exp_unit by blast
  have "to_double u = Fin (flush u)" using u(2,3) by (rule to_double_unit)
  then have "to_double (1 * u) = Fin (flush u)" by simp
  moreover have "0 \<le> flush u \<and> flush u \<le> u" using u by (intro flush_nonneg)
  ultimately show ?thesis using u False by auto
qed

lemma reciprocal_bounds:
  fixes \<tau> :: real
  assumes "1 / 2 ^ 1022 \<le> \<tau>" "\<tau> \<le> 2 ^ 1022"
  shows "0 < 1 / \<tau>" "1 / \<tau> \<le> 2 ^ 1022"
proof -
  have "(0::real) < 1 / 2 ^ 1022" by simp
  then have pos: "0 < \<tau>" using assms(1) by linarith
  then show "0 < 1 / \<tau>" by simp
  show "1 / \<tau> \<le> 2 ^ 1022" using assms(1) pos by (simp add: field_simps)
qed

lemma output_value:
  assumes "0 \<le> u" "u \<le> 1" "0 < a" "a \<le> 2 ^ 1022"
  shows "np_mul (Fin u) (Fin a) = Fin (flush (u * a))"
proof -
  have "u * a \<le> 1 * a" using assms by (intro mult_right_mono) simp_all
  moreover have "0 \<le> u * a" using assms by simp
  ultimately have "\<bar>u * a\<bar> < overflow_threshold"
    using assms(4) overflow_above_normal by linarith
  then show ?thesis by (simp add: to_double_Fin)
qed

lemma to_double_two: "to_double 2 = Fin 2"
  by (simp add: to_double_def flush_def overflow_threshold_def underflow_threshold_def)


text \<open>
  C5 claims non-increasing amplitudes for every ascending grid of non-negative
  time points. On the ascending grid 0, 2, 3 the solver raises \<^verbatim>\<open>ValueError\<close>: there
  is no amplitude sequence.
\<close>

theorem rc_impulse_response_ascending_grid_counterexample:
  "sorted [0, 2, 3 :: real] \<and> rc_impulse_response 2 [0, 2, 3] = Inl ValueError"
proof -
  have "\<not> steps_equal [0, 2, 3]"
    by (simp add: steps_equal_def upt_rec to_double_two)
  then have "rc_impulse_response 2 [0, 2, 3] = Inl ValueError"
    unfolding rc_impulse_response_def by (intro impulse_unequal_steps) simp_all
  then show ?thesis by simp
qed

text \<open>
  C5, as amended. For a time constant in the range of normal doubles
  (\<open>2^-1022 \<le> \<tau> \<le> 2^1022\<close>) and an ascending grid of non-negative time points whose
  steps pass the solver's test of equal spacing, the call returns one finite
  amplitude per grid point and the amplitudes never increase from one grid point to
  the next. Every grid \<open>t0 + i * dt\<close> passes that test.
\<close>

theorem rc_impulse_response_nonincreasing:
  "(1 / 2 ^ 1022 \<le> \<tau> \<and> \<tau> \<le> 2 ^ 1022 \<and> T \<noteq> [] \<and> (\<forall>t \<in> set T. 0 \<le> t)
      \<and> sorted T \<and> steps_equal T \<longrightarrow>
      (\<exists>amp. rc_impulse_response \<tau> T = Inr (T, amp)
         \<and> length amp = length T
         \<and> (\<forall>i. Suc i < length T \<longrightarrow>
               (\<exists>a b. amp ! i = Fin a \<and> amp ! Suc i = Fin b \<and> b \<le> a))))
   \<and> ((\<forall>i < length T. T ! i = t0 + of_nat i * dt) \<longrightarrow> steps_equal T)"
proof (intro conjI impI)
  assume "\<forall>i < length T. T ! i = t0 + of_nat i * dt"
  then show "steps_equal T" by (rule steps_equal_uniform)
next
  assume h: "1 / 2 ^ 1022 \<le> \<tau> \<and> \<tau> \<le> 2 ^ 1022 \<and> T \<noteq> [] \<and> (\<forall>t \<in> set T. 0 \<le> t)
      \<and> sorted T \<and> steps_equal T"
  define a where "a = 1 / \<tau>"
  have a: "0 < a" "a \<le> 2 ^ 1022"
    using h reciprocal_bounds [of \<tau>] by (simp_all add: a_def)
  have start: "0 \<le> hd T" using h by (cases T) simp_all
  have sys: "rc_element \<tau> = (Fin (- a), Fin 1, Fin a)"
    unfolding a_def using h by (intro rc_element_normal) simp_all
  define x0 where
    "x0 = (if hd T = 0 then Fin 1 else np_mul (Fin 1) (np_exp (np_mul (Fin (- a)) (Fin (hd T)))))"
  define E where "E = np_exp (np_mul (Fin (- a)) (to_double (T ! 1 - T ! 0)))"
  define amp where "amp = map (\<lambda>i. np_mul (xout x0 E i) (Fin a)) [0..<length T]"
  have v: "rc_impulse_response \<tau> T = Inr (T, amp)"
    unfolding rc_impulse_response_def sys amp_def x0_def E_def
    using h start by (intro impulse_value) simp_all
  have len: "length amp = length T" by (simp add: amp_def)
  obtain u0 where u0: "x0 = Fin u0" "0 \<le> u0" "u0 \<le> 1"
    unfolding x0_def using start_state_unit [OF a(1) start] by blast
  have mono: "\<exists>p q. amp ! i = Fin p \<and> amp ! Suc i = Fin q \<and> q \<le> p"
    if i: "Suc i < length T" for i
  proof -
    have "T ! 0 \<le> T ! 1"
      using h i by (intro sorted_nth_mono) simp_all
    then have "0 \<le> T ! 1 - T ! 0" by simp
    then obtain e where e: "E = Fin e" "0 \<le> e" "e \<le> 1"
      unfolding E_def using decay_factor_unit [OF a(1)] by blast
    obtain u where u: "xout (Fin u0) (Fin e) i = Fin u" "0 \<le> u" "u \<le> 1"
      "xout (Fin u0) (Fin e) (Suc i) = Fin (flush (u * e))"
      using xout_unit [OF u0(2,3) e(2,3)] by blast
    define w where "w = flush (u * e)"
    have ue: "0 \<le> u * e" "u * e \<le> u"
      using u e by (simp_all add: mult_left_le)
    then have w: "0 \<le> w" "w \<le> u"
      using flush_nonneg [of "u * e"] by (simp_all add: w_def)
    then have w1: "w \<le> 1" using u(3) by simp
    have p: "amp ! i = Fin (flush (u * a))"
      using i u(1) output_value [OF u(2,3) a] by (simp add: amp_def u0 e)
    have q: "amp ! Suc i = Fin (flush (w * a))"
      using i u(4) output_value [OF w(1) w1 a] by (simp add: amp_def u0 e w_def)
    have "w * a \<le> u * a" using w a by (intro mult_right_mono) simp_all
    moreover have "0 \<le> w * a" using w a by simp
    ultimately have "flush (w * a) \<le> flush (u * a)" by (intro flush_mono)
    with p q show ?thesis by blast
  qed
  show "\<exists>amp. rc_impulse_response \<tau> T = Inr (T, amp)
         \<and> length amp = length T
         \<and> (\<forall>i. Suc i < length T \<longrightarrow>
               (\<exists>a b. amp ! i = Fin a \<and> amp ! Suc i = Fin b \<and> b \<le> a))"
    using v len mono by blast
qed

lemma steps_equal_0_1: "steps_equal [0, 1]"
  by (simp add: steps_equal_def np_isclose_to_double_refl)

theorem rc_impulse_response_nonincreasing_witness:
  "(1 / 2 ^ 1022 :: real) \<le> 1 \<and> (1 :: real) \<le> 2 ^ 1022 \<and> [0, 1] \<noteq> ([] :: real list)
   \<and> sorted [0, 1 :: real]
   \<and> (\<exists>amp a b. rc_impulse_response 1 [0, 1] = Inr ([0, 1], amp)
         \<and> amp ! 0 = Fin a \<and> amp ! 1 = Fin b \<and> b \<le> a)"
proof -
  have h: "(1 / 2 ^ 1022 :: real) \<le> 1 \<and> (1 :: real) \<le> 2 ^ 1022 \<and> [0, 1] \<noteq> ([] :: real list)
      \<and> (\<forall>t \<in> set [0, 1 :: real]. 0 \<le> t) \<and> sorted [0, 1 :: real] \<and> steps_equal [0, 1]"
    using steps_equal_0_1 by simp
  from rc_impulse_response_nonincreasing [of 1 "[0, 1]"] h
  obtain amp where amp: "rc_impulse_response 1 [0, 1] = Inr ([0, 1], amp)"
    "\<forall>i. Suc i < length [0, 1 :: real] \<longrightarrow>
       (\<exists>a b. amp ! i = Fin a \<and> amp ! Suc i = Fin b \<and> b \<le> a)"
    by blast
  from amp(2) have "\<exists>a b. amp ! 0 = Fin a \<and> amp ! Suc 0 = Fin b \<and> b \<le> a"
    by simp
  with amp(1) h show ?thesis by auto
qed

text \<open>
  C6 claims that a time constant \<open>\<tau> \<le> 0\<close> is rejected with an error. The function
  builds the transfer function from \<open>\<tau>\<close> unchecked: for \<open>\<tau> = - 1\<close> and the grid
  with the single point 0 it returns the amplitude \<open>- 1\<close>.
\<close>

theorem rc_impulse_response_negative_tau_counterexample:
  "rc_impulse_response (- 1) [0] = Inr ([0], [Fin (- 1)])"
proof -
  have "rc_element (- 1) = (Fin (- (1 / (- 1))), Fin 1, Fin (1 / (- 1)))"
    by (intro rc_element_normal) simp_all
  then have "rc_element (- 1) = (Fin 1, Fin 1, Fin (- 1))" by simp
  moreover have "to_double (- 1) = Fin (- 1)"
    by (simp add: to_double_def flush_def overflow_threshold_def underflow_threshold_def)
  ultimately show ?thesis
    by (simp add: rc_impulse_response_def impulse_def)
qed

text \<open>
  C6, as amended. The time constant is never validated: whether the call fails
  depends on the grid alone, for every \<open>\<tau>\<close> and so for \<open>\<tau> \<le> 0\<close>. An empty grid fails
  with \<^verbatim>\<open>IndexError\<close>, a grid with a negative first point or with steps that do not
  pass the solver's test of equal spacing fails with \<^verbatim>\<open>ValueError\<close>, and nothing is
  returned then. Every other grid gives one amplitude per grid point; for a
  negative \<open>\<tau>\<close> in the range of normal doubles and a grid that starts at 0 the
  first amplitude is the negative number \<open>1 / \<tau>\<close>.
\<close>

theorem rc_impulse_response_no_validation:
  "(T = [] \<longrightarrow> rc_impulse_response \<tau> T = Inl IndexError)
   \<and> (T \<noteq> [] \<and> hd T < 0 \<longrightarrow> rc_impulse_response \<tau> T = Inl ValueError)
   \<and> (T \<noteq> [] \<and> 0 \<le> hd T \<and> \<not> steps_equal T \<longrightarrow>
        rc_impulse_response \<tau> T = Inl ValueError)
   \<and> (T \<noteq> [] \<and> 0 \<le> hd T \<and> steps_equal T \<longrightarrow>
        (\<exists>amp. rc_impulse_response \<tau> T = Inr (T, amp) \<and> length amp = length T))
   \<and> (- (2 ^ 1022) \<le> \<tau> \<and> \<tau> \<le> - (1 / 2 ^ 1022) \<and> T \<noteq> [] \<and> hd T = 0 \<and> steps_equal T \<longrightarrow>
        (\<exists>amp. rc_impulse_response \<tau> T = Inr (T, amp) \<and> amp ! 0 = Fin (1 / \<tau>)))"
proof (intro conjI impI)
  assume "T = []"
  then show "rc_impulse_response \<tau> T = Inl IndexError"
    by (simp add: rc_impulse_response_def impulse_empty)
next
  assume "T \<noteq> [] \<and> hd T < 0"
  then show "rc_impulse_response \<tau> T = Inl ValueError"
    by (simp add: rc_impulse_response_def impulse_negative_start)
next
  assume "T \<noteq> [] \<and> 0 \<le> hd T \<and> \<not> steps_equal T"
  then show "rc_impulse_response \<tau> T = Inl ValueError"
    by (simp add: rc_impulse_response_def impulse_unequal_steps)
next
  assume h: "T \<noteq> [] \<and> 0 \<le> hd T \<and> steps_equal T"
  obtain A B C where sys: "rc_element \<tau> = (A, B, C)" by (cases "rc_element \<tau>")
  from h show "\<exists>amp. rc_impulse_response \<tau> T = Inr (T, amp) \<and> length amp = length T"
    by (simp add: rc_impulse_response_def sys impulse_value)
next
  assume h: "- (2 ^ 1022) \<le> \<tau> \<and> \<tau> \<le> - (1 / 2 ^ 1022) \<and> T \<noteq> [] \<and> hd T = 0 \<and> steps_equal T"
  then have r: "1 / 2 ^ 1022 \<le> \<bar>\<tau>\<bar>" "\<bar>\<tau>\<bar> \<le> 2 ^ 1022" by simp_all
  have sys: "rc_element \<tau> = (Fin (- (1 / \<tau>)), Fin 1, Fin (1 / \<tau>))"
    using r by (rule rc_element_normal)
  have one: "to_double (1 / \<tau>) = Fin (1 / \<tau>)" using r by (rule reciprocal_normal)
  have pos: "0 < length T" using h by simp
  from h have "rc_impulse_response \<tau> T =
      Inr (T, map (\<lambda>i. np_mul (xout (Fin 1)
              (np_exp (np_mul (Fin (- (1 / \<tau>))) (to_double (T ! 1 - T ! 0)))) i) (Fin (1 / \<tau>)))
            [0..<length T])"
    by (simp add: rc_impulse_response_def sys impulse_value)
  moreover have "map (\<lambda>i. np_mul (xout (Fin 1)
              (np_exp (np_mul (Fin (- (1 / \<tau>))) (to_double (T ! 1 - T ! 0)))) i) (Fin (1 / \<tau>)))
            [0..<length T] ! 0 = Fin (1 / \<tau>)"
    using pos one by (simp del: upt_Suc)
  ultimately show "\<exists>amp. rc_impulse_response \<tau> T = Inr (T, amp) \<and> amp ! 0 = Fin (1 / \<tau>)"
    by blast
qed

theorem rc_impulse_response_no_validation_witness:
  "rc_impulse_response (- 2) [0, 1, 3] = Inl ValueError
   \<and> rc_impulse_response (- 2) [- 1] = Inl ValueError
   \<and> rc_impulse_response (- 2) [] = Inl IndexError
   \<and> (\<exists>amp. rc_impulse_response (- 2) [0, 1] = Inr ([0, 1], amp) \<and> amp ! 0 = Fin (1 / (- 2)))"
proof -
  have n: "\<not> steps_equal [0, 1, 3]"
    by (simp add: steps_equal_def upt_rec to_double_two)
  have "rc_impulse_response (- 2) [0, 1, 3] = Inl ValueError"
    using rc_impulse_response_no_validation [of "[0, 1, 3]" "- 2"] n by simp
  moreover have "rc_impulse_response (- 2) [- 1] = Inl ValueError"
    using rc_impulse_response_no_validation [of "[- 1]" "- 2"] by simp
  moreover have "rc_impulse_response (- 2) [] = Inl IndexError"
    using rc_impulse_response_no_validation [of "[]" "- 2"] by simp
  moreover have "\<exists>amp. rc_impulse_response (- 2) [0, 1] = Inr ([0, 1], amp)
      \<and> amp ! 0 = Fin (1 / (- 2))"
    using rc_impulse_response_no_validation [of "[0, 1]" "- 2"] steps_equal_0_1 by simp
  ultimately show ?thesis by simp
qed









text \<open>
  With a negative time constant the state grows, and it leaves the range of doubles
  quickly: for \<open>\<tau> = - 1 / 1000\<close> the amplitude one time unit after the start is
  already infinite.
\<close>

lemma exp_1000_overflows: "overflow_threshold \<le> exp 1000"
proof -
  have "(5 / 2 :: real) \<le> exp 1"
    using exp_lower_Taylor_quadratic [of "1::real"] by simp
  then have "(5 / 2 :: real) ^ 4 \<le> exp 1 ^ 4"
    by (intro power_mono) simp_all
  moreover have "(2 :: real) ^ 5 \<le> (5 / 2) ^ 4" by (simp add: power_divide)
  ultimately have "(2 :: real) ^ 5 \<le> exp 1 ^ 4" by linarith
  then have "((2 :: real) ^ 5) ^ 250 \<le> (exp 1 ^ 4) ^ 250"
    by (intro power_mono) simp_all
  then have "(2 :: real) ^ 1250 \<le> exp 1 ^ 1000"
    by (simp add: power_mult [symmetric])
  also have "\<dots> = exp (of_nat 1000 * 1)" by (rule exp_of_nat_mult [symmetric])
  finally have "(2 :: real) ^ 1250 \<le> exp 1000" by simp
  moreover have "overflow_threshold \<le> 2 ^ 1250"
    by (simp add: overflow_threshold_def)
  ultimately show ?thesis by linarith
qed

lemma rc_impulse_response_overflow_example:
  "rc_impulse_response (- (1 / 1000)) [0, 1] = Inr ([0, 1], [Fin (- 1000), NInf])"
proof -
  have "rc_element (- (1 / 1000)) = (Fin (- (1 / (- (1 / 1000)))), Fin 1, Fin (1 / (- (1 / 1000))))"
    by (intro rc_element_normal) simp_all
  then have sys: "rc_element (- (1 / 1000)) = (Fin 1000, Fin 1, Fin (- 1000))" by simp
  have t: "to_double 1000 = Fin 1000" "to_double (- 1000) = Fin (- 1000)"
    by (simp_all add: to_double_def flush_def overflow_threshold_def underflow_threshold_def)
  have e: "to_double (exp 1000) = PInf"
    using exp_1000_overflows by (simp add: to_double_def)
  show ?thesis
    by (simp add: rc_impulse_response_def sys impulse_def steps_equal_def
        np_isclose_to_double_refl t e upt_rec)
qed

subsection \<open>Properties of the convolution stage\<close>

lemma fold_np_add_zero:
  "\<forall>j \<in> set js. f j = Fin 0 \<Longrightarrow> fold (\<lambda>j acc. np_add acc (f j)) js (Fin 0) = Fin 0"
  by (induction js) simp_all

lemma convolve_at_zero:
  assumes "(\<forall>w \<in> set a. w = 0) \<or> (\<forall>w \<in> set v. w = 0)"
  shows "convolve_at a v n = Fin 0"
proof -
  have "(if j \<le> n \<and> n - j < length v then np_mul (Fin (a ! j)) (Fin (v ! (n - j))) else Fin 0)
      = Fin 0" if "j \<in> set [0..<length a]" for j
  proof (cases "j \<le> n \<and> n - j < length v")
    case True
    have "j < length a" using that by simp
    then have "a ! j \<in> set a" "v ! (n - j) \<in> set v" using True by simp_all
    then have "a ! j * v ! (n - j) = 0" using assms by auto
    then have "np_mul (Fin (a ! j)) (Fin (v ! (n - j))) = Fin 0"
      by (simp only: np_mul.simps to_double_zero)
    then show ?thesis by (simp only: if_P [OF True])
  next
    case False
    show ?thesis by (rule if_not_P [OF False])
  qed
  then show ?thesis unfolding convolve_at_def by (intro fold_np_add_zero) blast
qed


lemma signal_convolve_zero_signal:
  assumes "x \<noteq> []" "h \<noteq> []" "\<forall>w \<in> set x. w = 0"
  shows "signal_convolve x h = Inr (replicate (length x + length h - 1) (Fin 0))"
proof (cases "length x < length h")
  case True
  have "map (convolve_at h x) [0..<length h + length x - 1]
      = map (\<lambda>n. Fin 0) [0..<length h + length x - 1]"
    using assms(3) by (simp add: convolve_at_zero)
  with True assms show ?thesis
    by (simp add: signal_convolve_def np_convolve_def map_replicate_const add.commute)
next
  case False
  have "map (convolve_at x h) [0..<length x + length h - 1]
      = map (\<lambda>n. Fin 0) [0..<length x + length h - 1]"
    using assms(3) by (simp add: convolve_at_zero)
  with False assms show ?thesis
    by (simp add: signal_convolve_def np_convolve_def map_replicate_const)
qed

lemma fold_np_maximum_Fin:
  "fold np_maximum (map (np_abs \<circ> Fin) vs) (Fin v) = Fin (fold max (map abs vs) v)"
  by (induction vs arbitrary: v) simp_all

lemma np_max_abs_Fin:
  assumes "ys \<noteq> []"
  shows "np_max (map np_abs (map Fin ys)) = Inr (Fin (Max (abs ` set ys)))"
proof (cases ys)
  case Nil
  with assms show ?thesis by simp
next
  case (Cons v vs)
  have "fold max (map abs vs) \<bar>v\<bar> = Max (set (\<bar>v\<bar> # map abs vs))"
    by (rule Max.set_eq_fold [symmetric])
  then show ?thesis using Cons by (simp add: fold_np_maximum_Fin)
qed






text \<open>
  C4 claims that an all-zero signal gives an all-zero result because the division
  by the maximum is skipped. The notebook divides in every case, and \<open>0 / 0\<close> is
  \<open>NaN\<close>: the signal with the single sample 0 and the response with the single
  sample 1 give \<open>NaN\<close>, not 0.
\<close>

theorem convolved_zero_signal_counterexample:
  "convolved [0] [1] = Inr [NaN] \<and> convolved [0] [1] \<noteq> Inr [Fin 0]"
  by (simp add: convolved_def signal_convolve_def np_convolve_def convolve_at_def)

text \<open>
  C4, as amended. For a non-empty response and a non-empty all-zero signal the
  computation raises no error and returns a sequence of length
  \<open>length x + length h - 1\<close>, every entry of which is \<open>NaN\<close>: the division by the zero
  maximum is carried out.
\<close>

theorem convolved_zero_signal:
  "x \<noteq> [] \<and> h \<noteq> [] \<and> (\<forall>v \<in> set x. v = 0) \<longrightarrow>
     convolved x h = Inr (replicate (length x + length h - 1) NaN)"
proof
  assume a: "x \<noteq> [] \<and> h \<noteq> [] \<and> (\<forall>v \<in> set x. v = 0)"
  define L where "L = length x + length h - 1"
  have Lpos: "0 < L" using a by (cases x; cases h) (simp_all add: L_def)
  have c: "signal_convolve x h = Inr (replicate L (Fin 0))"
    unfolding L_def using a by (intro signal_convolve_zero_signal) simp_all
  have "replicate L (Fin 0) = map Fin (replicate L 0)" by simp
  moreover have "np_max (map np_abs (map Fin (replicate L 0))) = Inr (Fin (Max (abs ` set (replicate L 0))))"
    using Lpos by (intro np_max_abs_Fin) simp
  moreover have "abs ` set (replicate L (0::real)) = {0}" using Lpos by auto
  ultimately have "np_max (map np_abs (replicate L (Fin 0))) = Inr (Fin 0)" by simp
  with c show "convolved x h = Inr (replicate (length x + length h - 1) NaN)"
    by (simp add: convolved_def L_def)
qed

theorem convolved_zero_signal_witness:
  "[0, 0] \<noteq> ([] :: real list) \<and> [1, 2] \<noteq> ([] :: real list)
   \<and> convolved [0, 0] [1, 2] = Inr [NaN, NaN, NaN]"
  using convolved_zero_signal [of "[0, 0]" "[1, 2]"]
  by (simp add: eval_nat_numeral)

lemma to_double_exact:
  "(v = 0 \<or> underflow_threshold < \<bar>v\<bar>) \<Longrightarrow> \<bar>v\<bar> < overflow_threshold \<Longrightarrow> to_double v = Fin v"
  by (auto simp add: to_double_Fin flush_def)

lemma fold_np_add_exact:
  assumes "\<forall>j < k. (f j = 0 \<or> underflow_threshold < \<bar>f j\<bar>) \<and> \<bar>f j\<bar> < overflow_threshold"
    and "\<forall>j \<le> k. (sum f {..<j} = 0 \<or> underflow_threshold < \<bar>sum f {..<j}\<bar>)
           \<and> \<bar>sum f {..<j}\<bar> < overflow_threshold"
  shows "fold (\<lambda>j acc. np_add acc (to_double (f j))) [0..<k] (Fin 0) = Fin (sum f {..<k})"
  using assms
proof (induction k)
  case 0
  then show ?case by simp
next
  case (Suc k)
  have ih: "fold (\<lambda>j acc. np_add acc (to_double (f j))) [0..<k] (Fin 0) = Fin (sum f {..<k})"
    using Suc by simp
  have t: "to_double (f k) = Fin (f k)"
    using Suc.prems(1) by (intro to_double_exact) simp_all
  have s: "to_double (sum f {..<Suc k}) = Fin (sum f {..<Suc k})"
    using Suc.prems(2) by (intro to_double_exact) blast+
  show ?case using ih t s by simp
qed

text \<open>
  As long as every product and every partial sum stays within the range of doubles,
  the sample computed for index \<open>n\<close> is the sum of the convolution.
\<close>

lemma convolve_at_exact:
  fixes a v :: "real list" and n :: nat
  defines "p \<equiv> \<lambda>j. if j \<le> n \<and> n - j < length v then a ! j * v ! (n - j) else 0"
  assumes "\<forall>j < length a. (p j = 0 \<or> underflow_threshold < \<bar>p j\<bar>) \<and> \<bar>p j\<bar> < overflow_threshold"
    and "\<forall>j \<le> length a. (sum p {..<j} = 0 \<or> underflow_threshold < \<bar>sum p {..<j}\<bar>)
           \<and> \<bar>sum p {..<j}\<bar> < overflow_threshold"
  shows "convolve_at a v n = Fin (\<Sum>j < length a. p j)"
proof -
  have "(if j \<le> n \<and> n - j < length v then np_mul (Fin (a ! j)) (Fin (v ! (n - j))) else Fin 0)
      = to_double (p j)" for j
    by (simp add: p_def)
  then have "convolve_at a v n = fold (\<lambda>j acc. np_add acc (to_double (p j))) [0..<length a] (Fin 0)"
    by (simp add: convolve_at_def)
  also have "\<dots> = Fin (sum p {..<length a})"
    using assms(2,3) by (rule fold_np_add_exact)
  finally show ?thesis .
qed

subsection \<open>Properties of the rounding\<close>

lemma bitlen_lower_rat:
  assumes "0 < p"
  shows "(2::rat) powi (bitlen p - 1) \<le> of_int p"
proof -
  have ge: "0 \<le> bitlen p - 1" using assms by (simp add: bitlen_alt_def)
  have "2 ^ nat (bitlen p - 1) \<le> p" using bitlen_bounds [OF assms] by simp
  then have "(of_int (2 ^ nat (bitlen p - 1)) :: rat) \<le> of_int p"
    by (simp only: of_int_le_iff)
  then have "(2::rat) ^ nat (bitlen p - 1) \<le> of_int p" by simp
  moreover have "(2::rat) powi (bitlen p - 1) = 2 ^ nat (bitlen p - 1)"
    using ge by (simp add: power_int_def)
  ultimately show ?thesis by simp
qed

lemma bitlen_upper_rat:
  assumes "0 < q"
  shows "(of_int q :: rat) \<le> 2 powi (bitlen q)"
proof -
  have ge: "0 \<le> bitlen q" by (rule bitlen_nonneg)
  have "q < 2 ^ nat (bitlen q)" using bitlen_bounds [OF assms] by simp
  then have "(of_int q :: rat) < of_int (2 ^ nat (bitlen q))"
    by (simp only: of_int_less_iff)
  then have "(of_int q :: rat) < 2 ^ nat (bitlen q)" by simp
  moreover have "(2::rat) powi (bitlen q) = 2 ^ nat (bitlen q)"
    using ge by (simp add: power_int_def)
  ultimately show ?thesis by simp
qed

lemma ilog2_le:
  assumes "0 < x"
  shows "2 powi (ilog2 x) \<le> x"
proof -
  obtain p q where pq: "quotient_of x = (p, q)" by (cases "quotient_of x")
  then have q: "0 < q" by (rule quotient_of_denom_pos)
  have x: "x = of_int p / of_int q" using pq by (rule quotient_of_div)
  have p: "0 < p" using assms q x by (simp add: zero_less_divide_iff)
  define d where "d = bitlen p - bitlen q"
  show ?thesis
  proof (cases "x < 2 powi d")
    case False
    then show ?thesis using pq by (simp add: ilog2_def d_def)
  next
    case True
    then have e: "ilog2 x = d - 1" using pq by (simp add: ilog2_def d_def)
    have "(2::rat) powi (d - 1) = 2 powi (bitlen p - 1) / 2 powi (bitlen q)"
      by (simp add: d_def power_int_diff [symmetric] algebra_simps)
    also have "\<dots> \<le> of_int p / 2 powi (bitlen q)"
      using bitlen_lower_rat [OF p] by (simp add: divide_right_mono)
    also have "\<dots> \<le> of_int p / of_int q"
      using bitlen_upper_rat [OF q] p q by (intro divide_left_mono) simp_all
    finally show ?thesis using e x by simp
  qed
qed

text \<open>
  Together with \<open>ilog2_le\<close>: \<open>ilog2 x\<close> is the binary exponent of \<open>x\<close>, so that
  \<open>fl\<close> rounds at the 53rd significant bit.
\<close>

lemma bitlen_upper_strict_rat:
  assumes "0 < p"
  shows "(of_int p :: rat) < 2 powi (bitlen p)"
proof -
  have ge: "0 \<le> bitlen p" by (rule bitlen_nonneg)
  have "p < 2 ^ nat (bitlen p)" using bitlen_bounds [OF assms] by simp
  then have "(of_int p :: rat) < of_int (2 ^ nat (bitlen p))"
    by (simp only: of_int_less_iff)
  then have "(of_int p :: rat) < 2 ^ nat (bitlen p)" by simp
  moreover have "(2::rat) powi (bitlen p) = 2 ^ nat (bitlen p)"
    using ge by (simp add: power_int_def)
  ultimately show ?thesis by simp
qed

lemma ilog2_less:
  assumes "0 < x"
  shows "x < 2 powi (ilog2 x + 1)"
proof -
  obtain p q where pq: "quotient_of x = (p, q)" by (cases "quotient_of x")
  then have q: "0 < q" by (rule quotient_of_denom_pos)
  have x: "x = of_int p / of_int q" using pq by (rule quotient_of_div)
  have p: "0 < p" using assms q x by (simp add: zero_less_divide_iff)
  define d where "d = bitlen p - bitlen q"
  show ?thesis
  proof (cases "x < 2 powi d")
    case True
    then show ?thesis using pq by (simp add: ilog2_def d_def)
  next
    case False
    then have e: "ilog2 x = d" using pq by (simp add: ilog2_def d_def)
    have qpos: "(0::rat) < 2 powi (bitlen q - 1)" by simp
    have "of_int p / of_int q < 2 powi (bitlen p) / (of_int q :: rat)"
      using bitlen_upper_strict_rat [OF p] q by (simp add: divide_strict_right_mono)
    also have "\<dots> \<le> 2 powi (bitlen p) / 2 powi (bitlen q - 1)"
      using bitlen_lower_rat [OF q] qpos q by (intro divide_left_mono) simp_all
    also have "\<dots> = 2 powi (d + 1)"
      by (simp add: d_def power_int_diff [symmetric] algebra_simps)
    finally show ?thesis using e x by simp
  qed
qed

lemma rne_error: "\<bar>of_int (rne y) - y\<bar> \<le> 1 / 2"
proof -
  have "of_int \<lfloor>y\<rfloor> \<le> y" "y < of_int \<lfloor>y\<rfloor> + 1" by linarith+
  then show ?thesis by (auto simp add: rne_def Let_def)
qed

lemma fl_error:
  assumes "0 < x"
  shows "\<bar>fl x - x\<bar> \<le> x / 2 ^ 53"
proof -
  define u :: rat where "u = 2 powi (ilog2 x - 52)"
  have upos: "0 < u" by (simp add: u_def)
  have u: "u = 2 powi (ilog2 x) / 2 ^ 52"
    by (simp add: u_def power_int_diff)
  have ule: "u \<le> x / 2 ^ 52"
    using ilog2_le [OF assms] by (simp add: u divide_right_mono)
  have f: "fl x = of_int (rne (x / u)) * u"
    using assms by (simp add: fl_def u_def Let_def)
  have "fl x - x = (of_int (rne (x / u)) - x / u) * u"
    using upos by (simp add: f algebra_simps)
  then have "\<bar>fl x - x\<bar> = \<bar>of_int (rne (x / u)) - x / u\<bar> * u"
    using upos by (simp add: abs_mult)
  also have "\<dots> \<le> (1 / 2) * u"
    using rne_error [of "x / u"] upos by (intro mult_right_mono) simp_all
  also have "\<dots> \<le> (1 / 2) * (x / 2 ^ 52)"
    using ule by simp
  finally show ?thesis by simp
qed

lemma fl_pos:
  assumes "0 < x"
  shows "0 < fl x"
proof -
  have "x / 2 ^ 53 < x" using assms by (simp add: divide_less_eq)
  with fl_error [OF assms] show ?thesis by linarith
qed

lemma fl_nonneg: "0 \<le> x \<Longrightarrow> 0 \<le> fl x"
  using fl_pos [of x] by (cases "x = 0") (simp_all add: fl_def less_imp_le)

subsection \<open>Properties of the time grid\<close>

lemma time_value:
  assumes "0 < S"
  shows "time N S =
    Inr (map (\<lambda>i. fl (of_nat i * fl (1 / of_int S)))
          [0..<nat \<lceil>fl (fl (of_int N) / fl (1 / of_int S))\<rceil>])"
proof -
  have "0 < fl (1 / of_int S)" using assms by (intro fl_pos) simp
  then show ?thesis using assms by (simp add: time_def np_arange_def)
qed

lemma step_100: "fl (1 / 100) = 5764607523034235 / 576460752303423488"
  by code_simp

lemma len_20_100: "nat \<lceil>fl (fl 20 / fl (1 / 100))\<rceil> = 2000"
  by code_simp

lemma len_20_49: "nat \<lceil>fl (fl 20 / fl (1 / 49))\<rceil> = 981"
  by code_simp

lemma grid_entry_error:
  assumes "0 < S"
  shows "\<bar>fl (of_nat i * fl (1 / of_int S)) - of_nat i / of_int S\<bar>
           \<le> (of_nat i / of_int S) / 2 ^ 51"
proof (cases "i = 0")
  case True
  then show ?thesis by (simp add: fl_def)
next
  case False
  define t :: rat where "t = 1 / of_int S"
  define s where "s = fl t"
  define a where "a = of_nat i * t"
  define x where "x = of_nat i * s"
  define e :: rat where "e = 1 / 2 ^ 53"
  have tpos: "0 < t" using assms by (simp add: t_def)
  have spos: "0 < s" unfolding s_def using tpos by (rule fl_pos)
  have ipos: "(0::rat) < of_nat i" using False by simp
  have apos: "0 < a" using ipos tpos by (simp add: a_def)
  have xpos: "0 < x" using ipos spos by (simp add: x_def)
  have "\<bar>s - t\<bar> \<le> t * e" using fl_error [OF tpos] by (simp add: s_def e_def)
  then have "of_nat i * \<bar>s - t\<bar> \<le> of_nat i * (t * e)"
    using ipos by (intro mult_left_mono) simp_all
  moreover have "\<bar>x - a\<bar> = of_nat i * \<bar>s - t\<bar>"
    by (simp add: x_def a_def abs_mult right_diff_distrib [symmetric])
  ultimately have xa: "\<bar>x - a\<bar> \<le> a * e" by (simp add: a_def algebra_simps)
  have fx: "\<bar>fl x - x\<bar> \<le> x * e" using fl_error [OF xpos] by (simp add: e_def)
  have e1: "0 \<le> e" "e \<le> 1" by (simp_all add: e_def)
  have "x \<le> a + a * e" using xa by (simp add: abs_le_iff)
  then have "x * e \<le> (a + a * e) * e" using e1 by (intro mult_right_mono) simp_all
  also have "(a + a * e) * e = a * e + (a * e) * e" by (simp add: algebra_simps)
  also have "(a * e) * e \<le> (a * e) * 1"
    using e1 apos by (intro mult_left_mono) simp_all
  finally have "x * e \<le> 2 * (a * e)" by simp
  with fx xa have "\<bar>fl x - a\<bar> \<le> 3 * (a * e)" by linarith
  also have "\<dots> \<le> 4 * (a * e)" using apos e1 by simp
  also have "\<dots> = a / 2 ^ 51" by (simp add: e_def)
  finally show ?thesis by (simp add: x_def a_def s_def t_def)
qed

lemma grid_entry_20_100:
  assumes "i < 2000"
  shows "fl (of_nat i * fl (1 / 100)) < 20"
proof (cases "i = 0")
  case True
  then show ?thesis by (simp add: fl_def)
next
  case False
  define s :: rat where "s = 5764607523034235 / 576460752303423488"
  have s: "fl (1 / 100) = s" unfolding s_def by (rule step_100)
  define x where "x = of_nat i * s"
  have spos: "0 < s" by (simp add: s_def)
  have xpos: "0 < x" using False spos by (simp add: x_def)
  have "of_nat i \<le> (1999 :: rat)" using assms by simp
  then have xle: "x \<le> 1999 * s" using spos by (simp add: x_def)
  have "fl x \<le> x + x / 2 ^ 53" using fl_error [OF xpos] by linarith
  also have "\<dots> \<le> 1999 * s + (1999 * s) / 2 ^ 53"
    using xle by (intro add_mono divide_right_mono) simp_all
  also have "\<dots> < 20" by (simp add: s_def)
  finally show ?thesis by (simp add: x_def s)
qed

text \<open>
  C9, as amended. For positive \<open>bit_length\<close> and \<open>samples_per_bit\<close> the time grid
  starts at 0, its entry \<open>i\<close> is the double nearest to \<open>i * step\<close>, where \<open>step\<close> is the
  double nearest to \<open>1 / samples_per_bit\<close>, within a relative error of \<open>2^-51\<close> of
  \<open>i / samples_per_bit\<close>, and its length is the quotient \<open>bit_length / step\<close>, taken
  in double arithmetic and rounded up. For the values of the notebook, 20 and 100,
  that length is exactly \<open>bit_length * samples_per_bit = 2000\<close> and every entry lies
  in the interval from 0 to 20, 20 excluded.
\<close>

theorem time_grid_entries:
  "(0 < N \<and> 0 < S \<longrightarrow>
      (\<exists>g. time N S = Inr g
         \<and> length g = nat \<lceil>fl (fl (of_int N) / fl (1 / of_int S))\<rceil>
         \<and> (\<forall>i < length g. g ! i = fl (of_nat i * fl (1 / of_int S))
               \<and> 0 \<le> g ! i
               \<and> \<bar>g ! i - of_nat i / of_int S\<bar> \<le> (of_nat i / of_int S) / 2 ^ 51)
         \<and> (g \<noteq> [] \<longrightarrow> g ! 0 = 0)))
   \<and> (\<exists>g. time 20 100 = Inr g
         \<and> length g = 20 * 100
         \<and> g ! 0 = 0
         \<and> (\<forall>i < length g. 0 \<le> g ! i \<and> g ! i < 20))"
proof (intro conjI impI)
  assume a: "0 < N \<and> 0 < S"
  define s where "s = fl (1 / of_int S)"
  define L where "L = nat \<lceil>fl (fl (of_int N) / s)\<rceil>"
  define g where "g = map (\<lambda>i. fl (of_nat i * s)) [0..<L]"
  have v: "time N S = Inr g" using a time_value [of S N] by (simp add: g_def L_def s_def)
  have len: "length g = L" by (simp add: g_def)
  have spos: "0 < s" unfolding s_def using a by (intro fl_pos) simp
  have entry: "g ! i = fl (of_nat i * s) \<and> 0 \<le> g ! i
      \<and> \<bar>g ! i - of_nat i / of_int S\<bar> \<le> (of_nat i / of_int S) / 2 ^ 51"
    if "i < length g" for i
  proof -
    have e: "g ! i = fl (of_nat i * s)" using that by (simp add: g_def)
    have "0 \<le> of_nat i * s" using spos by simp
    then have "0 \<le> fl (of_nat i * s)" by (rule fl_nonneg)
    moreover have "\<bar>fl (of_nat i * s) - of_nat i / of_int S\<bar> \<le> (of_nat i / of_int S) / 2 ^ 51"
      unfolding s_def using a by (intro grid_entry_error) simp
    ultimately show ?thesis using e by simp
  qed
  have first: "g ! 0 = 0" if "g \<noteq> []"
  proof -
    from that have "0 < length g" by simp
    then have "g ! 0 = fl (of_nat 0 * s)" using entry by blast
    then show ?thesis by (simp add: fl_def)
  qed
  show "\<exists>g. time N S = Inr g
         \<and> length g = nat \<lceil>fl (fl (of_int N) / fl (1 / of_int S))\<rceil>
         \<and> (\<forall>i < length g. g ! i = fl (of_nat i * fl (1 / of_int S))
               \<and> 0 \<le> g ! i
               \<and> \<bar>g ! i - of_nat i / of_int S\<bar> \<le> (of_nat i / of_int S) / 2 ^ 51)
         \<and> (g \<noteq> [] \<longrightarrow> g ! 0 = 0)"
    using v len entry first unfolding L_def s_def by blast
next
  define g where "g = map (\<lambda>i. fl (of_nat i * fl (1 / 100))) [0..<2000]"
  have "time 20 100 = Inr (map (\<lambda>i. fl (of_nat i * fl (1 / 100)))
          [0..<nat \<lceil>fl (fl 20 / fl (1 / 100))\<rceil>])"
    using time_value [of 100 20] by simp
  then have v: "time 20 100 = Inr g"
    by (simp only: len_20_100 g_def)
  have len: "length g = 20 * 100" by (simp add: g_def)
  have entry: "0 \<le> g ! i \<and> g ! i < 20" if "i < length g" for i
  proof -
    from that have i: "i < 2000" by (simp add: g_def)
    then have e: "g ! i = fl (of_nat i * fl (1 / 100))" by (simp add: g_def)
    have "(0::rat) < fl (1 / 100)" by (intro fl_pos) simp
    then have "0 \<le> of_nat i * fl (1 / 100)" by simp
    then have "0 \<le> fl (of_nat i * fl (1 / 100))" by (rule fl_nonneg)
    with grid_entry_20_100 [OF i] e show ?thesis by simp
  qed
  have "g ! 0 = fl (of_nat 0 * fl (1 / 100))" by (simp add: g_def)
  then have first: "g ! 0 = 0" by (simp add: fl_def)
  show "\<exists>g. time 20 100 = Inr g
         \<and> length g = 20 * 100
         \<and> g ! 0 = 0
         \<and> (\<forall>i < length g. 0 \<le> g ! i \<and> g ! i < 20)"
    using v len first entry by blast
qed

theorem time_grid_entries_witness:
  "(0::int) < 2 \<and> (0::int) < 4
   \<and> (\<exists>g. time 2 4 = Inr g \<and> length g = 8 \<and> g ! 3 = 3 / 4)"
proof -
  have h: "(0::int) < 2 \<and> (0::int) < 4" by simp
  from time_grid_entries [of 2 4] h
  obtain g where g: "time 2 4 = Inr g"
    "length g = nat \<lceil>fl (fl (of_int 2) / fl (1 / of_int 4))\<rceil>"
    "\<forall>i < length g. g ! i = fl (of_nat i * fl (1 / of_int 4))
               \<and> 0 \<le> g ! i
               \<and> \<bar>g ! i - of_nat i / of_int 4\<bar> \<le> (of_nat i / of_int 4) / 2 ^ 51"
    by blast
  have l: "nat \<lceil>fl (fl (of_int 2) / fl (1 / of_int 4))\<rceil> = 8" by code_simp
  have e: "fl (of_nat 3 * fl (1 / of_int 4)) = 3 / 4" by code_simp
  from g l e have "length g = 8" "g ! 3 = 3 / 4" by simp_all
  with g(1) h show ?thesis by blast
qed

text \<open>
  C9 claims exactly \<open>bit_length * samples_per_bit\<close> entries for all positive values.
  With \<open>bit_length = 20\<close> and \<open>samples_per_bit = 49\<close> the double nearest to \<open>1 / 49\<close>
  lies below \<open>1 / 49\<close>, the quotient \<open>20 / step\<close> rounds to the double above 980, and
  the grid has 981 entries.
\<close>

theorem time_grid_length_counterexample:
  "map_sum id length (time 20 49) = Inr 981
   \<and> map_sum id length (time 20 49) \<noteq> Inr (20 * 49)"
proof -
  have "time 20 49 = Inr (map (\<lambda>i. fl (of_nat i * fl (1 / 49)))
          [0..<nat \<lceil>fl (fl 20 / fl (1 / 49))\<rceil>])"
    using time_value [of 49 20] by simp
  then show ?thesis by (simp only: len_20_49) simp
qed

end

